theory Spec2Isabelle
  imports Main "HOL-Library.Multiset" "HOL-Library.Word"
begin

section \<open>Errors\<close>

text \<open>
  Every exception the sources throw is a \<^verbatim>\<open>std::invalid_argument\<close> carrying a message; the
  specification's error kinds (InvalidOrdering, DuplicateKey, SizeMismatch) are names for
  the places that throw it.  \<open>exception\<close> stands for any other C++ exception an injected
  collaborator may throw, \<open>assertion_failed\<close> for an \<^verbatim>\<open>assert\<close> that aborts, and
  \<open>out_of_range\<close> for an unchecked access outside a container, which the language leaves
  undefined.
\<close>

datatype error =
    invalid_argument string
  | exception string
  | assertion_failed
  | out_of_range

section \<open>VectorValuesUnordered\<close>

text \<open>
  A \<^verbatim>\<open>Vector\<close> is a dense column of scalars and the store's only data member is
  \<^verbatim>\<open>values_\<close>, a \<^verbatim>\<open>std::vector\<close> of them, so a store is modelled by the value of
  \<^verbatim>\<open>values_\<close>.  The scalar type is left open: the structural results hold for any
  addition, the algebraic ones for any semiring (exact arithmetic).  An \<^verbatim>\<open>Index\<close> passed
  by the caller is an unsigned machine integer of a fixed width \<open>'w\<close>, whose arithmetic
  wraps around.  The counters of the loops stay below the slot count, so they are
  natural numbers.  Running out of memory is not modelled.
\<close>

type_synonym 'a Vector = "'a list"
type_synonym 'a VectorValues = "'a Vector list"

definition size_vv :: "'a VectorValues \<Rightarrow> nat" where
  "size_vv values = length values"

text \<open>
  \<^verbatim>\<open>std::vector::resize\<close>: surplus slots are dropped, new slots are value-initialised; a
  value-initialised \<^verbatim>\<open>Vector\<close> has length zero.
\<close>

definition resize_values :: "nat \<Rightarrow> 'a VectorValues \<Rightarrow> 'a VectorValues" where
  "resize_values n values = take n values @ replicate (n - length values) []"

text \<open>
  Resizing a \<^verbatim>\<open>Vector\<close> sets its length and leaves its entries indeterminate; \<open>uninit\<close>
  supplies whatever the memory holds at each position.
\<close>

definition Vector_resize :: "(nat \<Rightarrow> 'a) \<Rightarrow> nat \<Rightarrow> 'a Vector" where
  "Vector_resize uninit n = map uninit [0..<n]"

text \<open>Elementwise sum, dot product and squared norm of the linear-algebra library.\<close>

definition Vector_plus :: "'a::plus Vector \<Rightarrow> 'a Vector \<Rightarrow> 'a Vector" where
  "Vector_plus x y = map2 (+) x y"

definition Vector_dot :: "'a::semiring_0 Vector \<Rightarrow> 'a Vector \<Rightarrow> 'a" where
  "Vector_dot x y = sum_list (map2 (*) x y)"

definition Vector_squaredNorm :: "'a::semiring_0 Vector \<Rightarrow> 'a" where
  "Vector_squaredNorm x = sum_list (map (\<lambda>e. e * e) x)"

text \<open>
  Modelled from the spec: \<^verbatim>\<open>VectorValuesUnordered::exists\<close> is declared in a header that is
  not among the sources.  The specification fixes its meaning: treat "exists" as
  "index < current size".
\<close>

definition exists_vv :: "'a VectorValues \<Rightarrow> 'w::len word \<Rightarrow> bool" where
  "exists_vv values j \<longleftrightarrow> unat j < size_vv values"

subsection \<open>insert\<close>

text \<open>
  \<^verbatim>\<open>j + 1\<close> is computed in \<^verbatim>\<open>Index\<close>: for the largest index it is 0.  The assignment to
  \<^verbatim>\<open>values_[j]\<close> is unchecked, so an index outside the resized store is an access outside
  the vector.
\<close>

definition VectorValues_insert ::
  "'w::len word \<Rightarrow> 'a Vector \<Rightarrow> 'a VectorValues \<Rightarrow> error + 'a VectorValues" where
  "VectorValues_insert j val values =
     (if exists_vv values j
      then Inl (invalid_argument
             ''VectorValues: requested variable index to insert already exists.'')
      else
        let values = (if unat j \<ge> size_vv values then resize_values (unat (j + 1)) values
                      else values)
        in if unat j < size_vv values then Inr (values[unat j := val])
           else Inl out_of_range)"

subsection \<open>SameStructure\<close>

text \<open>
  \<^verbatim>\<open>SameStructure\<close> default-constructs a store (no slots) and calls \<^verbatim>\<open>resizeLike\<close> on it:
  \<^verbatim>\<open>values_\<close> gets one slot per slot of \<open>other\<close>, and slot \<open>j\<close> is resized to the length
  of \<open>other\<close>'s slot \<open>j\<close>.
\<close>

definition SameStructure :: "(nat \<Rightarrow> 'a) \<Rightarrow> 'a VectorValues \<Rightarrow> 'a VectorValues" where
  "SameStructure uninit other =
     map (\<lambda>j. Vector_resize uninit (length (other ! j))) [0..<size_vv other]"

subsection \<open>dot and squaredNorm\<close>

function dot_loop ::
  "'a::semiring_0 VectorValues \<Rightarrow> 'a VectorValues \<Rightarrow> nat \<Rightarrow> 'a \<Rightarrow> error + 'a" where
  "dot_loop this v j result =
     (if j < size_vv this
      then (if length (this ! j) = length (v ! j)
            then dot_loop this v (j + 1) (result + Vector_dot (this ! j) (v ! j))
            else Inl (invalid_argument ''VectorValues::dot called with different vector sizes''))
      else Inr result)"
  by pat_completeness auto
termination
  by (relation "measure (\<lambda>(this, v, j, result). size_vv this - j)") auto

declare dot_loop.simps [simp del]

definition VectorValues_dot ::
  "'a::semiring_0 VectorValues \<Rightarrow> 'a VectorValues \<Rightarrow> error + 'a" where
  "VectorValues_dot this v =
     (if size_vv this \<noteq> size_vv v
      then Inl (invalid_argument ''VectorValues::dot called with different vector sizes'')
      else dot_loop this v 0 0)"

function squaredNorm_loop :: "'a::semiring_0 VectorValues \<Rightarrow> nat \<Rightarrow> 'a \<Rightarrow> 'a" where
  "squaredNorm_loop this j sumSquares =
     (if j < size_vv this
      then squaredNorm_loop this (j + 1) (sumSquares + Vector_squaredNorm (this ! j))
      else sumSquares)"
  by pat_completeness auto
termination
  by (relation "measure (\<lambda>(this, j, sumSquares). size_vv this - j)") auto

declare squaredNorm_loop.simps [simp del]

definition VectorValues_squaredNorm :: "'a::semiring_0 VectorValues \<Rightarrow> 'a" where
  "VectorValues_squaredNorm this = squaredNorm_loop this 0 0"

subsection \<open>operator+ and operator+=\<close>

function plus_loop ::
  "'a::plus VectorValues \<Rightarrow> 'a VectorValues \<Rightarrow> nat \<Rightarrow> 'a VectorValues
     \<Rightarrow> error + 'a VectorValues" where
  "plus_loop this c j result =
     (if j < size_vv this
      then (if length (this ! j) = length (c ! j)
            then plus_loop this c (j + 1) (result[j := Vector_plus (this ! j) (c ! j)])
            else Inl (invalid_argument
                   ''VectorValues::operator- called with different vector sizes''))
      else Inr result)"
  by pat_completeness auto
termination
  by (relation "measure (\<lambda>(this, c, j, result). size_vv this - j)") auto

declare plus_loop.simps [simp del]

definition operator_plus ::
  "(nat \<Rightarrow> 'a) \<Rightarrow> 'a::plus VectorValues \<Rightarrow> 'a VectorValues \<Rightarrow> error + 'a VectorValues" where
  "operator_plus uninit this c =
     (let result = SameStructure uninit this
      in if size_vv this \<noteq> size_vv c
         then Inl (invalid_argument
                ''VectorValues::operator+ called with different vector sizes'')
         else plus_loop this c 0 result)"

text \<open>
  \<^verbatim>\<open>operator+=\<close> updates the store in place, so the model returns the store as the call
  leaves it together with the exception, if one was thrown: a throw in the middle of the
  loop leaves the earlier slots already updated.
\<close>

function plus_assign_loop ::
  "'a::plus VectorValues \<Rightarrow> 'a VectorValues \<Rightarrow> nat \<Rightarrow> 'a VectorValues \<times> error option" where
  "plus_assign_loop this c j =
     (if j < size_vv this
      then (if length (this ! j) = length (c ! j)
            then plus_assign_loop (this[j := Vector_plus (this ! j) (c ! j)]) c (j + 1)
            else (this, Some (invalid_argument
                   ''VectorValues::operator+= called with different vector sizes'')))
      else (this, None))"
  by pat_completeness auto
termination
  by (relation "measure (\<lambda>(this, c, j). size_vv this - j)") (auto simp: size_vv_def)

declare plus_assign_loop.simps [simp del]

definition operator_plus_assign ::
  "'a::plus VectorValues \<Rightarrow> 'a VectorValues \<Rightarrow> 'a VectorValues \<times> error option" where
  "operator_plus_assign this c =
     (if size_vv this \<noteq> size_vv c
      then (this, Some (invalid_argument
             ''VectorValues::operator+= called with different vector sizes''))
      else plus_assign_loop this c 0)"

section \<open>EliminationTreeUnordered\<close>

text \<open>
  A node holds its variable, the factors first met at that variable, and its child
  subtrees.  The source links nodes by shared pointers; a node is attached to a parent
  only after its own construction step is over and is never changed afterwards, so the
  child pointer is modelled by the subtree it points to.  A \<^verbatim>\<open>sharedFactor\<close> is an opaque
  value of type \<open>'f\<close>.
\<close>

datatype ('k, 'f) Node =
  Node (key: 'k) (factors: "'f list") (children: "('k, 'f) Node list")

record ('k, 'f) EliminationTree =
  roots :: "('k, 'f) Node list"
  remainingFactors :: "'f list"

text \<open>
  Assertions are checked only in a build without \<^verbatim>\<open>NDEBUG\<close>; the flag \<open>debug\<close> of the
  functions below says which build runs.
\<close>

subsection \<open>Node::eliminate\<close>

text \<open>
  The injected elimination function takes the gathered factors and the keys to
  eliminate and returns a conditional and a separator factor, or throws.
\<close>

type_synonym ('k, 'f, 'c) Eliminate = "'f list \<Rightarrow> 'k list \<Rightarrow> error + ('c \<times> 'f)"

text \<open>
  \<open>output\<close> is the Bayes net before the call; the result pairs the Bayes net after the
  call with the returned factor.
\<close>

definition Node_eliminate ::
  "bool \<Rightarrow> ('k, 'f) Node \<Rightarrow> 'c list \<Rightarrow> ('k, 'f, 'c) Eliminate \<Rightarrow> 'f list
     \<Rightarrow> error + ('c list \<times> 'f)" where
  "Node_eliminate debug node output func childrenResults =
     (if debug \<and> length childrenResults \<noteq> length (children node) then Inl assertion_failed
      else
        let gatheredFactors = factors node @ childrenResults;
            keyAsVector = [key node]
        in case func gatheredFactors keyAsVector of
             Inl e \<Rightarrow> Inl e
           | Inr eliminationResult \<Rightarrow>
               Inr (output @ [fst eliminationResult], snd eliminationResult))"

subsection \<open>Construction from a graph, a variable index and an ordering\<close>

text \<open>
  The factor graph is the sequence of its factors.  The variable index is an injected
  collaborator: \<open>structure' k\<close> is the list of indices of the factors that involve \<open>k\<close>,
  or the exception its lookup throws.  The sentinel \<^verbatim>\<open>none\<close> (the largest \<^verbatim>\<open>size_t\<close>,
  which no index into a vector reaches) is \<open>None\<close>.

  \<open>nodes\<close> holds the nodes created so far: in step \<open>j\<close> it has \<open>j + 1\<close> entries and the
  source's remaining entries are still null.
\<close>

record ('k, 'f) sweep =
  nodes :: "('k, 'f) Node list"
  parents :: "nat option list"
  prevCol :: "nat option list"
  factorUsed :: "bool list"

text \<open>
  The \<^verbatim>\<open>while\<close> loop that walks up from \<open>r\<close> to the root of its tree.  Nothing in the loop
  itself bounds the walk, so not returning is the value \<open>None\<close>.
\<close>

partial_function (option) find_root :: "nat option list \<Rightarrow> nat \<Rightarrow> (error + nat) option" where
  "find_root pars r =
     (if r < length pars
      then (case pars ! r of None \<Rightarrow> Some (Inr r) | Some p \<Rightarrow> find_root pars p)
      else Some (Inl out_of_range))"

declare find_root.simps [code]

fun push_back_child :: "('k, 'f) Node \<Rightarrow> ('k, 'f) Node \<Rightarrow> ('k, 'f) Node" where
  "push_back_child (Node k fs cs) c = Node k fs (cs @ [c])"

fun push_back_factor :: "('k, 'f) Node \<Rightarrow> 'f \<Rightarrow> ('k, 'f) Node" where
  "push_back_factor (Node k fs cs) f = Node k (fs @ [f]) cs"

text \<open>
  The body of the loop over the factors \<open>i\<close> of the current variable, in step \<open>j\<close>.
  \<^verbatim>\<open>prevCol\<close> and \<^verbatim>\<open>factorUsed\<close> have one entry per factor of the graph; an index outside
  the graph is an access outside all three.  The root \<open>r\<close> found by the walk is a node
  created earlier; were it not, the source would attach a null pointer, which the
  model reports as \<open>out_of_range\<close> of \<open>nodes\<close>.
\<close>

definition visit_factor ::
  "'f list \<Rightarrow> nat \<Rightarrow> nat \<Rightarrow> ('k, 'f) sweep \<Rightarrow> (error + ('k, 'f) sweep) option" where
  "visit_factor graph j i s =
     (if i < length graph then
        (case prevCol s ! i of
           Some k \<Rightarrow>
             (case find_root (parents s) k of
                None \<Rightarrow> None
              | Some (Inl e) \<Rightarrow> Some (Inl e)
              | Some (Inr r) \<Rightarrow>
                  if r \<noteq> j then
                    if r < length (nodes s) then
                      Some (Inr (s\<lparr>parents := (parents s)[r := Some j],
                                  nodes := (nodes s)[j := push_back_child (nodes s ! j) (nodes s ! r)],
                                  prevCol := (prevCol s)[i := Some j]\<rparr>))
                    else Some (Inl out_of_range)
                  else Some (Inr (s\<lparr>prevCol := (prevCol s)[i := Some j]\<rparr>)))
         | None \<Rightarrow>
             Some (Inr (s\<lparr>nodes := (nodes s)[j := push_back_factor (nodes s ! j) (graph ! i)],
                         factorUsed := (factorUsed s)[i := True],
                         prevCol := (prevCol s)[i := Some j]\<rparr>)))
      else Some (Inl out_of_range))"

fun foreach_factor ::
  "'f list \<Rightarrow> nat \<Rightarrow> nat list \<Rightarrow> ('k, 'f) sweep \<Rightarrow> (error + ('k, 'f) sweep) option" where
  "foreach_factor graph j [] s = Some (Inr s)"
| "foreach_factor graph j (i # rest) s =
     (case visit_factor graph j i s of
        Some (Inr s') \<Rightarrow> foreach_factor graph j rest s'
      | other \<Rightarrow> other)"

text \<open>The loop over the columns \<open>j\<close> of the ordering.\<close>

function sweep_from ::
  "'f list \<Rightarrow> ('k \<Rightarrow> error + nat list) \<Rightarrow> 'k list \<Rightarrow> nat \<Rightarrow> ('k, 'f) sweep
     \<Rightarrow> (error + ('k, 'f) sweep) option" where
  "sweep_from graph structure' order j s =
     (if j < length order then
        (case structure' (order ! j) of
           Inl e \<Rightarrow> Some (Inl e)
         | Inr involved \<Rightarrow>
             (case foreach_factor graph j involved
                     (s\<lparr>nodes := nodes s @ [Node (order ! j) [] []]\<rparr>) of
                Some (Inr s') \<Rightarrow> sweep_from graph structure' order (j + 1) s'
              | other \<Rightarrow> other))
      else Some (Inr s))"
  by pat_completeness auto
termination
  by (relation "measure (\<lambda>(graph, structure', order, j, s). length order - j)") auto

declare sweep_from.simps [simp del]

text \<open>
  The \<^verbatim>\<open>try\<close> block with its handlers: a \<^verbatim>\<open>std::invalid_argument\<close> from inside the sweep
  is replaced by one with the constructor's own message, anything else passes through.
\<close>

definition sweep_try ::
  "'f list \<Rightarrow> ('k \<Rightarrow> error + nat list) \<Rightarrow> 'k list \<Rightarrow> (error + ('k, 'f) sweep) option" where
  "sweep_try graph structure' order =
     (let m = length graph; n = length order
      in case sweep_from graph structure' order 0
                \<lparr>nodes = [], parents = replicate n None, prevCol = replicate m None,
                 factorUsed = replicate m False\<rparr> of
           Some (Inl (invalid_argument e)) \<Rightarrow>
             Some (Inl (invalid_argument
               ''EliminationTree: given ordering contains variables that are not involved in the factor graph''))
         | other \<Rightarrow> other)"

text \<open>
  The three-argument constructor.  After the sweep it asserts that the last entry of
  \<^verbatim>\<open>parents\<close> is \<^verbatim>\<open>none\<close> (reading the last entry of an empty vector is undefined), collects
  the parentless nodes as roots and the unused factors as remaining factors.
\<close>

definition EliminationTreeUnordered ::
  "bool \<Rightarrow> 'f list \<Rightarrow> ('k \<Rightarrow> error + nat list) \<Rightarrow> 'k list
     \<Rightarrow> (error + ('k, 'f) EliminationTree) option" where
  "EliminationTreeUnordered debug graph structure' order =
     (let m = length graph; n = length order
      in case sweep_try graph structure' order of
           None \<Rightarrow> None
         | Some (Inl e) \<Rightarrow> Some (Inl e)
         | Some (Inr s) \<Rightarrow>
             if debug \<and> parents s = [] then Some (Inl out_of_range)
             else if debug \<and> last (parents s) \<noteq> None then Some (Inl assertion_failed)
             else Some (Inr
               \<lparr>roots = map (\<lambda>j. nodes s ! j) (filter (\<lambda>j. parents s ! j = None) [0..<n]),
                remainingFactors =
                  map (\<lambda>i. graph ! i) (filter (\<lambda>i. \<not> factorUsed s ! i) [0..<m])\<rparr>))"

subsection \<open>eliminate\<close>

text \<open>
  Modelled from the spec: \<^verbatim>\<open>inference::EliminateTree\<close> is defined in
  \<^verbatim>\<open>inference-inst.h\<close>, which is not among the sources.  The specification describes it as
  a depth-first, children-before-parent traversal of every tree of the forest, root by
  root in root-list order.  A node is eliminated by \<^verbatim>\<open>Node::eliminate\<close> once all its
  children have produced their separator factors, which it receives in child-list
  order; the separator factor of a root is discarded and is not retained as output, so
  the traversal hands no factor back.
\<close>

fun eliminate_subtree ::
  "bool \<Rightarrow> ('k, 'f, 'c) Eliminate \<Rightarrow> 'c list \<Rightarrow> ('k, 'f) Node \<Rightarrow> error + ('c list \<times> 'f)"
and eliminate_children ::
  "bool \<Rightarrow> ('k, 'f, 'c) Eliminate \<Rightarrow> 'c list \<Rightarrow> ('k, 'f) Node list
     \<Rightarrow> error + ('c list \<times> 'f list)" where
  "eliminate_subtree debug func output (Node k fs cs) =
     (case eliminate_children debug func output cs of
        Inl e \<Rightarrow> Inl e
      | Inr (output', childrenResults) \<Rightarrow>
          Node_eliminate debug (Node k fs cs) output' func childrenResults)"
| "eliminate_children debug func output [] = Inr (output, [])"
| "eliminate_children debug func output (c # cs) =
     (case eliminate_subtree debug func output c of
        Inl e \<Rightarrow> Inl e
      | Inr (output', separatorFactor) \<Rightarrow>
          (case eliminate_children debug func output' cs of
             Inl e \<Rightarrow> Inl e
           | Inr (output'', results) \<Rightarrow> Inr (output'', separatorFactor # results)))"

fun eliminate_roots ::
  "bool \<Rightarrow> ('k, 'f, 'c) Eliminate \<Rightarrow> 'c list \<Rightarrow> ('k, 'f) Node list \<Rightarrow> error + 'c list" where
  "eliminate_roots debug func output [] = Inr output"
| "eliminate_roots debug func output (r # rs) =
     (case eliminate_subtree debug func output r of
        Inl e \<Rightarrow> Inl e
      | Inr (output', separatorFactor) \<Rightarrow> eliminate_roots debug func output' rs)"

definition EliminateTree ::
  "bool \<Rightarrow> 'c list \<Rightarrow> ('k, 'f) EliminationTree \<Rightarrow> ('k, 'f, 'c) Eliminate
     \<Rightarrow> error + ('c list \<times> 'f list)" where
  "EliminateTree debug result tree func =
     (case eliminate_roots debug func result (roots tree) of
        Inl e \<Rightarrow> Inl e
      | Inr result' \<Rightarrow> Inr (result', []))"

text \<open>
  \<^verbatim>\<open>EliminationTreeUnordered::eliminate\<close>, from the source: it starts from an empty Bayes
  net, runs \<^verbatim>\<open>EliminateTree\<close>, and returns the Bayes net with a graph that holds the
  tree's \<^verbatim>\<open>remainingFactors_\<close> followed by the factors the traversal returned (the local
  \<^verbatim>\<open>remainingFactors\<close> of the source, here \<open>returned\<close>).
\<close>

definition eliminate ::
  "bool \<Rightarrow> ('k, 'f) EliminationTree \<Rightarrow> ('k, 'f, 'c) Eliminate
     \<Rightarrow> error + ('c list \<times> 'f list)" where
  "eliminate debug this func =
     (case EliminateTree debug [] this func of
        Inl e \<Rightarrow> Inl e
      | Inr (result, returned) \<Rightarrow>
          let allRemainingFactors = [] @ remainingFactors this @ returned
          in Inr (result, allRemainingFactors))"

section \<open>VerticalBlockMatrix\<close>

text \<open>
  Modelled from the spec: the class declaration of \<^verbatim>\<open>VerticalBlockMatrix\<close> is in a header
  that is not among the sources.  A view owns one dense matrix, of which only the shape
  matters here, and a sequence of column-block boundary offsets with one entry more than
  there are blocks; its active view is the rows from \<^verbatim>\<open>rowStart_\<close> up to \<^verbatim>\<open>rowEnd_\<close> and
  the blocks from \<^verbatim>\<open>blockStart_\<close> on.  \<open>rows\<close> and \<open>nBlocks\<close> are the row count and the
  block count of the active view, \<open>cols\<close> its total column count, and a
  default-constructed view has no rows, no blocks and the single offset 0.  The
  subtractions are those of the natural numbers: the definitions describe views with
  \<^verbatim>\<open>rowStart_\<close> at most \<^verbatim>\<open>rowEnd_\<close> and \<^verbatim>\<open>blockStart_\<close> below the number of offsets.
\<close>

record VerticalBlockMatrix =
  matrix_rows :: nat
  matrix_cols :: nat
  variableColOffsets :: "nat list"
  rowStart :: nat
  rowEnd :: nat
  blockStart :: nat

definition rows :: "VerticalBlockMatrix \<Rightarrow> nat" where
  "rows v = rowEnd v - rowStart v"

definition nBlocks :: "VerticalBlockMatrix \<Rightarrow> nat" where
  "nBlocks v = length (variableColOffsets v) - 1 - blockStart v"

definition cols :: "VerticalBlockMatrix \<Rightarrow> nat" where
  "cols v = last (variableColOffsets v) - variableColOffsets v ! blockStart v"

definition default_VerticalBlockMatrix :: VerticalBlockMatrix where
  "default_VerticalBlockMatrix =
     \<lparr>matrix_rows = 0, matrix_cols = 0, variableColOffsets = [0],
      rowStart = 0, rowEnd = 0, blockStart = 0\<rparr>"

text \<open>
  \<^verbatim>\<open>resize\<close> of the vector of offsets: surplus entries are dropped and new entries are
  value-initialised, which for an integer is 0.
\<close>

definition resize_offsets :: "nat \<Rightarrow> nat list \<Rightarrow> nat list" where
  "resize_offsets n offsets = take n offsets @ replicate (n - length offsets) 0"

subsection \<open>LikeActiveViewOf\<close>

text \<open>The loop that copies the offsets of the active blocks.\<close>

function copy_offsets :: "VerticalBlockMatrix \<Rightarrow> nat \<Rightarrow> nat list \<Rightarrow> nat list" where
  "copy_offsets rhs i offsets =
     (if i < nBlocks rhs
      then copy_offsets rhs (i + 1)
             (offsets[i := variableColOffsets rhs ! (i + blockStart rhs)])
      else offsets)"
  by pat_completeness auto
termination
  by (relation "measure (\<lambda>(rhs, i, offsets). nBlocks rhs - i)") auto

declare copy_offsets.simps [simp del]

text \<open>
  \<^verbatim>\<open>assertInvariants\<close> is declared in the same header; it is a parameter here: the call
  either aborts or lets the result through.
\<close>

definition LikeActiveViewOf ::
  "(VerticalBlockMatrix \<Rightarrow> bool) \<Rightarrow> VerticalBlockMatrix \<Rightarrow> error + VerticalBlockMatrix" where
  "LikeActiveViewOf assertInvariants rhs =
     (let result = default_VerticalBlockMatrix;
          result = result\<lparr>variableColOffsets :=
                     resize_offsets (nBlocks rhs + 1) (variableColOffsets result)\<rparr>;
          result = result\<lparr>variableColOffsets := copy_offsets rhs 0 (variableColOffsets result)\<rparr>;
          result = result\<lparr>matrix_rows := rows rhs,
                          matrix_cols := last (variableColOffsets result)\<rparr>;
          result = result\<lparr>rowEnd := rows rhs\<rparr>
      in if assertInvariants result then Inr result else Inl assertion_failed)"

section \<open>Notions used to state and prove the properties\<close>

text \<open>The factor lists of all nodes of a subtree, concatenated.\<close>

fun all_factors :: "('k, 'f) Node \<Rightarrow> 'f list" where
  "all_factors (Node k fs cs) = fs @ concat (map all_factors cs)"

text \<open>
  The state of the sweep is well formed for \<open>c\<close> created nodes, an ordering of length \<open>n\<close>
  and a graph of \<open>m\<close> factors: the vectors have their declared sizes, a parent is a
  created node with a larger index than its child, a previous column is a created
  node, and a factor is marked used exactly when it has a previous column.
\<close>

definition wf_sweep :: "nat \<Rightarrow> nat \<Rightarrow> nat \<Rightarrow> ('k, 'f) sweep \<Rightarrow> bool" where
  "wf_sweep c n m s \<longleftrightarrow>
     length (nodes s) = c \<and> c \<le> n \<and> length (parents s) = n
     \<and> length (prevCol s) = m \<and> length (factorUsed s) = m
     \<and> (\<forall>r p. r < n \<longrightarrow> parents s ! r = Some p \<longrightarrow> r < p \<and> p < c)
     \<and> (\<forall>i k. i < m \<longrightarrow> prevCol s ! i = Some k \<longrightarrow> k < c)
     \<and> (\<forall>i. i < m \<longrightarrow> factorUsed s ! i = (prevCol s ! i \<noteq> None))"

text \<open>The factors held in the trees of the current roots, and the factors marked used.\<close>

definition root_factors :: "('k, 'f) sweep \<Rightarrow> 'f multiset" where
  "root_factors s =
     (\<Sum>r \<in> {r. r < length (nodes s) \<and> parents s ! r = None}. mset (all_factors (nodes s ! r)))"

definition used_factors :: "'f list \<Rightarrow> ('k, 'f) sweep \<Rightarrow> 'f multiset" where
  "used_factors graph s = (\<Sum>i \<in> {i. i < length graph \<and> factorUsed s ! i}. {#graph ! i#})"

section \<open>Properties of VectorValuesUnordered\<close>

lemma resize_update:
  assumes "length s \<le> j"
  shows "(resize_values (Suc j) s)[j := v] = s @ replicate (j - length s) [] @ [v]"
proof -
  have "resize_values (Suc j) s = s @ replicate (j - length s) [] @ [[]]"
    using assms by (simp add: resize_values_def Suc_diff_le replicate_append_same)
  moreover have "length (s @ replicate (j - length s) []) = j"
    using assms by simp
  ultimately show ?thesis
    by (metis append.assoc list_update_length)
qed

lemma length_resize_values: "length (resize_values n s) = n"
  by (simp add: resize_values_def)

lemma unat_succ_no_wrap:
  fixes j :: "'w::len word"
  assumes "j \<noteq> - 1"
  shows "unat (j + 1) = Suc (unat j)"
proof -
  from assms have "1 + j \<noteq> 0"
    by (metis add.commute add_eq_0_iff)
  then show ?thesis
    by (simp add: unatSuc add.commute)
qed

text \<open>
  Claim C6, as amended.  \<^verbatim>\<open>insert(j, v)\<close> throws \<^verbatim>\<open>std::invalid_argument\<close> (the DuplicateKey
  failure) when \<open>j\<close> is below the slot count.  When \<open>j\<close> is at or beyond the slot count and
  is not the largest value of \<^verbatim>\<open>Index\<close>, it succeeds and the store becomes the old slots,
  then zero-length vectors for every index from the old slot count up to \<open>j - 1\<close>, then
  \<open>v\<close> at slot \<open>j\<close>: it has \<open>j + 1\<close> slots.
\<close>

theorem insert_duplicate_or_grows:
  fixes j :: "'w::len word"
  shows "(unat j < size_vv s \<longrightarrow>
      VectorValues_insert j v s =
        Inl (invalid_argument
          ''VectorValues: requested variable index to insert already exists.''))
    \<and> (size_vv s \<le> unat j \<and> j \<noteq> - 1 \<longrightarrow>
      VectorValues_insert j v s = Inr (s @ replicate (unat j - size_vv s) [] @ [v]))"
proof (intro conjI impI)
  assume "unat j < size_vv s"
  then show "VectorValues_insert j v s =
      Inl (invalid_argument ''VectorValues: requested variable index to insert already exists.'')"
    by (simp add: VectorValues_insert_def exists_vv_def)
next
  assume a: "size_vv s \<le> unat j \<and> j \<noteq> - 1"
  then have u: "unat (j + 1) = Suc (unat j)" by (simp add: unat_succ_no_wrap)
  from a have le: "length s \<le> unat j" by (simp add: size_vv_def)
  show "VectorValues_insert j v s = Inr (s @ replicate (unat j - size_vv s) [] @ [v])"
    using le
    by (simp add: VectorValues_insert_def exists_vv_def size_vv_def Let_def u
        length_resize_values resize_update)
qed

theorem insert_duplicate_or_grows_witness:
  "VectorValues_insert (0 :: 64 word) [1::int] [[2]]
     = Inl (invalid_argument ''VectorValues: requested variable index to insert already exists.'')
   \<and> VectorValues_insert (3 :: 64 word) [1::int] [[2]] = Inr [[2], [], [], [1]]"
proof -
  have u3: "unat (3 :: 64 word) = 3" by simp
  have n3: "(3 :: 64 word) \<noteq> - 1" by simp
  have r: "replicate 2 ([] :: int list) = [[], []]"
    by (simp add: numeral_2_eq_2)
  from insert_duplicate_or_grows [of "0 :: 64 word" "[[2::int]]" "[1]"]
  have "VectorValues_insert (0 :: 64 word) [1::int] [[2]]
     = Inl (invalid_argument ''VectorValues: requested variable index to insert already exists.'')"
    by (simp add: size_vv_def)
  moreover from insert_duplicate_or_grows [of "3 :: 64 word" "[[2::int]]" "[1]"] n3
  have "VectorValues_insert (3 :: 64 word) [1::int] [[2]] = Inr [[2], [], [], [1]]"
    by (simp add: size_vv_def u3 r)
  ultimately show ?thesis by simp
qed

text \<open>
  At the largest index the claim as stated fails: \<^verbatim>\<open>j + 1\<close> wraps to 0, the store is
  resized to no slots, and the assignment to slot \<open>j\<close> falls outside it.
\<close>

theorem insert_largest_index_counterexample:
  "size_vv [[2::int]] \<le> unat (- 1 :: 64 word)
   \<and> VectorValues_insert (- 1 :: 64 word) [1::int] [[2]] = Inl out_of_range"
proof -
  have m: "unat (- 1 :: 64 word) = 18446744073709551615"
    by (simp add: unsigned_minus_1_eq_mask mask_eq_exp_minus_1)
  show ?thesis
    by (simp add: VectorValues_insert_def exists_vv_def size_vv_def resize_values_def Let_def m)
qed

lemma Vector_dot_self: "Vector_dot x x = Vector_squaredNorm x"
  by (induction x) (simp_all add: Vector_dot_def Vector_squaredNorm_def)

lemma dot_loop_self: "dot_loop this this j s = Inr (squaredNorm_loop this j s)"
proof (induction this j s rule: squaredNorm_loop.induct)
  case (1 this j sumSquares)
  show ?case
  proof (cases "j < size_vv this")
    case True
    then show ?thesis
      using 1 dot_loop.simps [of this this j sumSquares]
        squaredNorm_loop.simps [of this j sumSquares]
      by (simp add: Vector_dot_self)
  next
    case False
    then show ?thesis
      using dot_loop.simps [of this this j sumSquares]
        squaredNorm_loop.simps [of this j sumSquares]
      by simp
  qed
qed

text \<open>
  Claim C9.  For every store \<open>a\<close>, \<^verbatim>\<open>a.dot(a)\<close> returns (it does not throw) and its value is
  \<^verbatim>\<open>a.squaredNorm()\<close>, in exact arithmetic: accumulating the per-slot dot products of \<open>a\<close>
  with itself gives the sum of the per-slot squared norms.
\<close>

theorem dot_self_is_squaredNorm:
  "VectorValues_dot a a = Inr (VectorValues_squaredNorm a)"
  by (simp add: VectorValues_dot_def VectorValues_squaredNorm_def dot_loop_self)

lemma plus_loop_eq:
  "length result = length this \<Longrightarrow> length c = length this \<Longrightarrow> j \<le> length this \<Longrightarrow>
   plus_loop this c j result =
     (if \<forall>k. j \<le> k \<and> k < length this \<longrightarrow> length (this ! k) = length (c ! k)
      then Inr (take j result @ map2 Vector_plus (drop j this) (drop j c))
      else Inl (invalid_argument ''VectorValues::operator- called with different vector sizes''))"
proof (induction this c j result rule: plus_loop.induct)
  case (1 this c j result)
  note unfold = plus_loop.simps [of this c j result]
  show ?case
  proof (cases "j < size_vv this")
    case False
    with 1(2-) unfold show ?thesis by (simp add: size_vv_def)
  next
    case lt: True
    show ?thesis
    proof (cases "length (this ! j) = length (c ! j)")
      case False
      moreover from lt have "j \<le> j \<and> j < length this" by (simp add: size_vv_def)
      ultimately have "\<not> (\<forall>k. j \<le> k \<and> k < length this \<longrightarrow> length (this ! k) = length (c ! k))"
        by blast
      with lt False unfold show ?thesis by simp
    next
      case eq: True
      let ?r = "result[j := Vector_plus (this ! j) (c ! j)]"
      from lt 1(2-) have jl: "j < length this" "j < length c" "j < length result"
        by (simp_all add: size_vv_def)
      have IH: "plus_loop this c (j + 1) ?r =
        (if \<forall>k. j + 1 \<le> k \<and> k < length this \<longrightarrow> length (this ! k) = length (c ! k)
         then Inr (take (j + 1) ?r @ map2 Vector_plus (drop (j + 1) this) (drop (j + 1) c))
         else Inl (invalid_argument ''VectorValues::operator- called with different vector sizes''))"
        using 1(1)[OF lt eq] 1(2-) jl by simp
      have cond: "(\<forall>k. j + 1 \<le> k \<and> k < length this \<longrightarrow> length (this ! k) = length (c ! k))
          \<longleftrightarrow> (\<forall>k. j \<le> k \<and> k < length this \<longrightarrow> length (this ! k) = length (c ! k))"
        using eq by (metis Suc_eq_plus1 Suc_leI le_neq_implies_less Suc_leD)
      have tk: "take (j + 1) ?r = take j result @ [Vector_plus (this ! j) (c ! j)]"
        using jl by (simp add: take_Suc_conv_app_nth)
      have dr: "drop j this = this ! j # drop (j + 1) this" "drop j c = c ! j # drop (j + 1) c"
        using jl by (simp_all add: Cons_nth_drop_Suc)
      have "plus_loop this c j result = plus_loop this c (j + 1) ?r"
        using lt eq unfold by simp
      then show ?thesis
        unfolding IH cond tk dr by simp
    qed
  qed
qed

lemma plus_assign_loop_eq:
  "length c = length this \<Longrightarrow> j \<le> length this \<Longrightarrow>
   \<forall>k. j \<le> k \<and> k < length this \<longrightarrow> length (this ! k) = length (c ! k) \<Longrightarrow>
   plus_assign_loop this c j = (take j this @ map2 Vector_plus (drop j this) (drop j c), None)"
proof (induction this c j rule: plus_assign_loop.induct)
  case (1 this c j)
  note unfold = plus_assign_loop.simps [of this c j]
  show ?case
  proof (cases "j < size_vv this")
    case False
    with 1(2-) unfold show ?thesis by (simp add: size_vv_def)
  next
    case lt: True
    from lt 1(2-) have jl: "j < length this" "j < length c"
      by (simp_all add: size_vv_def)
    have eq: "length (this ! j) = length (c ! j)" using 1(4) jl by simp
    let ?t = "this[j := Vector_plus (this ! j) (c ! j)]"
    have pre: "\<forall>k. j + 1 \<le> k \<and> k < length ?t \<longrightarrow> length (?t ! k) = length (c ! k)"
      using 1(4) by simp
    have IH: "plus_assign_loop ?t c (j + 1) =
        (take (j + 1) ?t @ map2 Vector_plus (drop (j + 1) ?t) (drop (j + 1) c), None)"
      using 1(1)[OF lt eq _ _ pre] 1(2-) jl by simp
    have tk: "take (j + 1) ?t = take j this @ [Vector_plus (this ! j) (c ! j)]"
      using jl by (simp add: take_Suc_conv_app_nth)
    have dr: "drop j this = this ! j # drop (j + 1) this" "drop j c = c ! j # drop (j + 1) c"
      using jl by (simp_all add: Cons_nth_drop_Suc)
    have "plus_assign_loop this c j = plus_assign_loop ?t c (j + 1)"
      using lt eq unfold by simp
    then show ?thesis unfolding IH tk dr by simp
  qed
qed

text \<open>
  Claim C7.  \<^verbatim>\<open>a + b\<close> throws \<^verbatim>\<open>std::invalid_argument\<close> (the SizeMismatch failure) when the slot
  counts differ, and when they agree but some slot has a different length in \<open>a\<close> and in
  \<open>b\<close>; otherwise it returns the store whose slot \<open>j\<close> is the elementwise sum of \<open>a\<close>'s
  and \<open>b\<close>'s slot \<open>j\<close>.  The operands are values of the model, as the member function is
  \<^verbatim>\<open>const\<close> and takes a \<^verbatim>\<open>const\<close> reference: no outcome changes them.
\<close>

theorem operator_plus_mismatch_or_slotwise_sum:
  "operator_plus uninit a b =
     (if size_vv a \<noteq> size_vv b
      then Inl (invalid_argument ''VectorValues::operator+ called with different vector sizes'')
      else if \<forall>j < size_vv a. length (a ! j) = length (b ! j)
      then Inr (map2 Vector_plus a b)
      else Inl (invalid_argument ''VectorValues::operator- called with different vector sizes''))"
  by (auto simp add: operator_plus_def Let_def plus_loop_eq SameStructure_def size_vv_def)

theorem operator_plus_mismatch_or_slotwise_sum_witness:
  "operator_plus (\<lambda>_. 0) [[1, 2], [3::int]] [[10, 20], [30]] = Inr [[11, 22], [33]]
   \<and> operator_plus (\<lambda>_. 0) [[1, 2], [3::int]] [[10, 20], [30, 40]]
       = Inl (invalid_argument ''VectorValues::operator- called with different vector sizes'')
   \<and> operator_plus (\<lambda>_. 0) [[1, 2], [3::int]] [[10, 20]]
       = Inl (invalid_argument ''VectorValues::operator+ called with different vector sizes'')"
  using operator_plus_mismatch_or_slotwise_sum [of "\<lambda>_. 0" "[[1, 2], [3::int]]" "[[10, 20], [30]]"]
    operator_plus_mismatch_or_slotwise_sum [of "\<lambda>_. 0" "[[1, 2], [3::int]]" "[[10, 20], [30, 40]]"]
    operator_plus_mismatch_or_slotwise_sum [of "\<lambda>_. 0" "[[1, 2], [3::int]]" "[[10, 20]]"]
  by (simp add: size_vv_def less_Suc_eq all_conj_distrib Vector_plus_def)

text \<open>
  Claim C10.  For stores \<open>a\<close> and \<open>c\<close> with equal slot counts and equal lengths in every
  slot, \<^verbatim>\<open>a += c\<close> throws nothing and leaves in \<open>a\<close> the value that \<^verbatim>\<open>a + c\<close> returns for
  the prior contents of \<open>a\<close>.
\<close>

theorem plus_assign_agrees_with_plus:
  assumes "size_vv a = size_vv c"
    and "\<forall>j < size_vv a. length (a ! j) = length (c ! j)"
  shows "snd (operator_plus_assign a c) = None
    \<and> operator_plus uninit a c = Inr (fst (operator_plus_assign a c))"
  using assms
  by (simp add: operator_plus_assign_def plus_assign_loop_eq operator_plus_def Let_def
      plus_loop_eq SameStructure_def size_vv_def)

theorem plus_assign_agrees_with_plus_witness:
  "size_vv [[1, 2], [3::int]] = size_vv [[10, 20], [30::int]]
   \<and> operator_plus_assign [[1, 2], [3::int]] [[10, 20], [30]] = ([[11, 22], [33]], None)
   \<and> operator_plus (\<lambda>_. 7) [[1, 2], [3::int]] [[10, 20], [30]] = Inr [[11, 22], [33]]"
proof -
  have s: "size_vv [[1, 2], [3::int]] = size_vv [[10, 20], [30::int]]"
    by (simp add: size_vv_def)
  have l: "\<forall>j < size_vv [[1, 2], [3::int]]. length ([[1, 2], [3::int]] ! j) = length ([[10, 20], [30::int]] ! j)"
    by (simp add: size_vv_def less_Suc_eq all_conj_distrib)
  have v: "operator_plus_assign [[1, 2], [3::int]] [[10, 20], [30]] = ([[11, 22], [33]], None)"
    by code_simp
  show ?thesis
    using plus_assign_agrees_with_plus [OF s l, of "\<lambda>_. 7"] s v by simp
qed

section \<open>Properties of the elimination tree construction\<close>

subsection \<open>The walk to the root and the bookkeeping of factors\<close>

lemma find_root_wf:
  assumes wf: "\<forall>r p. r < length pars \<longrightarrow> pars ! r = Some p \<longrightarrow> r < p \<and> p < c"
    and c: "c \<le> length pars"
    and k: "k < c"
  shows "\<exists>r. find_root pars k = Some (Inr r) \<and> k \<le> r \<and> r < c \<and> pars ! r = None"
  using k
proof (induction "c - k" arbitrary: k rule: less_induct)
  case less
  from less.prems c have kl: "k < length pars" by simp
  show ?case
  proof (cases "pars ! k")
    case None
    with kl less.prems show ?thesis
      by (subst find_root.simps) simp
  next
    case (Some p)
    with wf kl have p: "k < p" "p < c" by auto
    then have "c - p < c - k" by simp
    from less.hyps [OF this p(2)] obtain r
      where r: "find_root pars p = Some (Inr r)" "p \<le> r" "r < c" "pars ! r = None"
      by blast
    have "find_root pars k = find_root pars p"
      using kl Some by (subst find_root.simps) simp
    with r p show ?thesis by auto
  qed
qed

lemma mset_all_factors_push_back_child:
  "mset (all_factors (push_back_child nd c)) = mset (all_factors nd) + mset (all_factors c)"
  by (cases nd) simp

lemma mset_all_factors_push_back_factor:
  "mset (all_factors (push_back_factor nd f)) = mset (all_factors nd) + {#f#}"
  by (cases nd) simp

lemma root_factors_add_factor:
  assumes j: "j < length (nodes s)" and pj: "parents s ! j = None"
    and n': "nodes s' = (nodes s)[j := push_back_factor (nodes s ! j) f]"
    and p': "parents s' = parents s"
  shows "root_factors s' = root_factors s + {#f#}"
proof -
  let ?R = "{r. r < length (nodes s) \<and> parents s ! r = None}"
  let ?F = "\<lambda>r. mset (all_factors (nodes s ! r))"
  let ?F' = "\<lambda>r. mset (all_factors (nodes s' ! r))"
  have fin: "finite ?R" by simp
  have jR: "j \<in> ?R" using j pj by simp
  have "root_factors s' = sum ?F' ?R"
    by (simp add: root_factors_def n' p')
  also have "\<dots> = ?F' j + sum ?F' (?R - {j})"
    by (rule sum.remove [OF fin jR])
  also have "?F' j = ?F j + {#f#}"
    using j by (simp add: n' mset_all_factors_push_back_factor)
  also have "sum ?F' (?R - {j}) = sum ?F (?R - {j})"
    by (rule sum.cong) (simp_all add: n')
  finally have "root_factors s' = (?F j + sum ?F (?R - {j})) + {#f#}"
    by (simp add: ac_simps)
  also have "?F j + sum ?F (?R - {j}) = sum ?F ?R"
    by (rule sum.remove [OF fin jR, symmetric])
  finally show ?thesis
    by (simp add: root_factors_def)
qed

lemma root_factors_attach:
  assumes j: "j < length (nodes s)" and r: "r < length (nodes s)" and rj: "r \<noteq> j"
    and pj: "parents s ! j = None" and pr: "parents s ! r = None"
    and len: "length (nodes s) \<le> length (parents s)"
    and n': "nodes s' = (nodes s)[j := push_back_child (nodes s ! j) (nodes s ! r)]"
    and p': "parents s' = (parents s)[r := Some j]"
  shows "root_factors s' = root_factors s"
proof -
  let ?R = "{x. x < length (nodes s) \<and> parents s ! x = None}"
  let ?F = "\<lambda>x. mset (all_factors (nodes s ! x))"
  let ?F' = "\<lambda>x. mset (all_factors (nodes s' ! x))"
  have fin: "finite ?R" "finite (?R - {r})" by simp_all
  have rR: "r \<in> ?R" using r pr by simp
  have jR: "j \<in> ?R - {r}" using j pj rj by simp
  have R': "{x. x < length (nodes s') \<and> parents s' ! x = None} = ?R - {r}"
    using r len by (auto simp: n' p' nth_list_update)
  have "root_factors s' = sum ?F' (?R - {r})"
    by (simp add: root_factors_def R')
  also have "\<dots> = ?F' j + sum ?F' (?R - {r} - {j})"
    by (rule sum.remove [OF fin(2) jR])
  also have "?F' j = ?F j + ?F r"
    using j by (simp add: n' mset_all_factors_push_back_child)
  also have "sum ?F' (?R - {r} - {j}) = sum ?F (?R - {r} - {j})"
    by (rule sum.cong) (simp_all add: n')
  finally have "root_factors s' = ?F r + (?F j + sum ?F (?R - {r} - {j}))"
    by (simp add: ac_simps)
  also have "?F j + sum ?F (?R - {r} - {j}) = sum ?F (?R - {r})"
    by (rule sum.remove [OF fin(2) jR, symmetric])
  also have "?F r + sum ?F (?R - {r}) = sum ?F ?R"
    by (rule sum.remove [OF fin(1) rR, symmetric])
  finally show ?thesis
    by (simp add: root_factors_def)
qed

lemma root_factors_new_node:
  assumes pc: "parents s ! length (nodes s) = None"
    and n': "nodes s' = nodes s @ [Node k [] []]"
    and p': "parents s' = parents s"
  shows "root_factors s' = root_factors s"
proof -
  let ?c = "length (nodes s)"
  let ?R = "{x. x < ?c \<and> parents s ! x = None}"
  have R': "{x. x < length (nodes s') \<and> parents s' ! x = None} = insert ?c ?R"
    using pc by (auto simp: n' p' less_Suc_eq)
  have "root_factors s' = (\<Sum>x \<in> insert ?c ?R. mset (all_factors (nodes s' ! x)))"
    by (simp add: root_factors_def R')
  also have "\<dots> = mset (all_factors (nodes s' ! ?c)) + (\<Sum>x \<in> ?R. mset (all_factors (nodes s' ! x)))"
    by (rule sum.insert) simp_all
  also have "(\<Sum>x \<in> ?R. mset (all_factors (nodes s' ! x))) = (\<Sum>x \<in> ?R. mset (all_factors (nodes s ! x)))"
    by (rule sum.cong) (simp_all add: n' nth_append)
  finally show ?thesis
    by (simp add: root_factors_def n')
qed

lemma used_factors_mark:
  assumes i: "i < length graph" and len: "length (factorUsed s) = length graph"
    and u: "\<not> factorUsed s ! i"
    and f': "factorUsed s' = (factorUsed s)[i := True]"
  shows "used_factors graph s' = used_factors graph s + {#graph ! i#}"
proof -
  let ?U = "{x. x < length graph \<and> factorUsed s ! x}"
  have U': "{x. x < length graph \<and> factorUsed s' ! x} = insert i ?U"
    using i len by (auto simp: f' nth_list_update)
  have "used_factors graph s' = (\<Sum>x \<in> insert i ?U. {#graph ! x#})"
    by (simp add: used_factors_def U')
  also have "\<dots> = {#graph ! i#} + (\<Sum>x \<in> ?U. {#graph ! x#})"
    by (rule sum.insert) (simp_all add: u)
  finally show ?thesis
    by (simp add: used_factors_def)
qed

subsection \<open>One factor of the current variable\<close>

lemma wf_sweep_root_j:
  assumes "wf_sweep (Suc j) n m s"
  shows "parents s ! j = None"
proof (cases "parents s ! j")
  case (Some p)
  from assms have "j < n" and "\<forall>r p. r < n \<longrightarrow> parents s ! r = Some p \<longrightarrow> r < p \<and> p < Suc j"
    by (simp_all add: wf_sweep_def)
  with Some have "j < p \<and> p < Suc j" by blast
  then show ?thesis by linarith
qed simp

lemma visit_factor_step:
  assumes wf: "wf_sweep (Suc j) n (length graph) s"
    and bal: "root_factors s = used_factors graph s"
    and i: "i < length graph"
  shows "\<exists>s'. visit_factor graph j i s = Some (Inr s') \<and> wf_sweep (Suc j) n (length graph) s'
           \<and> root_factors s' = used_factors graph s'"
proof -
  from wf have len: "length (nodes s) = Suc j" "Suc j \<le> n" "length (parents s) = n"
      "length (prevCol s) = length graph" "length (factorUsed s) = length graph"
    and par: "\<And>r p. r < n \<Longrightarrow> parents s ! r = Some p \<Longrightarrow> r < p \<and> p < Suc j"
    and prv: "\<And>i k. i < length graph \<Longrightarrow> prevCol s ! i = Some k \<Longrightarrow> k < Suc j"
    and usd: "\<And>i. i < length graph \<Longrightarrow> factorUsed s ! i = (prevCol s ! i \<noteq> None)"
    by (simp_all add: wf_sweep_def)
  have pj: "parents s ! j = None" by (rule wf_sweep_root_j [OF wf])
  show ?thesis
  proof (cases "prevCol s ! i")
    case None
    let ?s = "s\<lparr>nodes := (nodes s)[j := push_back_factor (nodes s ! j) (graph ! i)],
                 factorUsed := (factorUsed s)[i := True],
                 prevCol := (prevCol s)[i := Some j]\<rparr>"
    have v: "visit_factor graph j i s = Some (Inr ?s)"
      using i None by (simp add: visit_factor_def)
    have w: "wf_sweep (Suc j) n (length graph) ?s"
      unfolding wf_sweep_def using len par prv usd i
      by (auto simp: nth_list_update)
    have "root_factors ?s = root_factors s + {#graph ! i#}"
      by (rule root_factors_add_factor [where j = j]) (simp_all add: len pj)
    moreover have "used_factors graph ?s = used_factors graph s + {#graph ! i#}"
      by (rule used_factors_mark) (simp_all add: i len usd None)
    ultimately have "root_factors ?s = used_factors graph ?s"
      using bal by simp
    with v w show ?thesis by blast
  next
    case (Some k)
    with prv i have k: "k < Suc j" by simp
    have "\<forall>r p. r < length (parents s) \<longrightarrow> parents s ! r = Some p \<longrightarrow> r < p \<and> p < Suc j"
      using par len by simp
    from find_root_wf [OF this _ k] len obtain r
      where r: "find_root (parents s) k = Some (Inr r)" "r < Suc j" "parents s ! r = None"
      by auto
    have ui: "factorUsed s ! i" using usd i Some by simp
    show ?thesis
    proof (cases "r = j")
      case True
      let ?s = "s\<lparr>prevCol := (prevCol s)[i := Some j]\<rparr>"
      have v: "visit_factor graph j i s = Some (Inr ?s)"
        using i Some r True by (simp add: visit_factor_def)
      have w: "wf_sweep (Suc j) n (length graph) ?s"
        unfolding wf_sweep_def using len par prv usd ui i
        by (auto simp: nth_list_update)
      have "root_factors ?s = root_factors s" "used_factors graph ?s = used_factors graph s"
        by (simp_all add: root_factors_def used_factors_def)
      with v w bal show ?thesis by auto
    next
      case False
      with r have rj: "r < j" by simp
      let ?s = "s\<lparr>parents := (parents s)[r := Some j],
                   nodes := (nodes s)[j := push_back_child (nodes s ! j) (nodes s ! r)],
                   prevCol := (prevCol s)[i := Some j]\<rparr>"
      have v: "visit_factor graph j i s = Some (Inr ?s)"
        using i Some r False rj len by (simp add: visit_factor_def)
      have w: "wf_sweep (Suc j) n (length graph) ?s"
        unfolding wf_sweep_def using len par prv usd ui rj i
        by (auto simp: nth_list_update)
      have "root_factors ?s = root_factors s"
        by (rule root_factors_attach [where j = j and r = r])
          (use rj len pj r in simp_all)
      moreover have "used_factors graph ?s = used_factors graph s"
        by (simp add: used_factors_def)
      ultimately show ?thesis using v w bal by auto
    qed
  qed
qed

subsection \<open>Iterating over the factors and over the columns\<close>

lemma visit_factor_outside:
  "\<not> i < length graph \<Longrightarrow> visit_factor graph j i s = Some (Inl out_of_range)"
  by (simp add: visit_factor_def)

lemma foreach_factor_ok:
  assumes "wf_sweep (Suc j) n (length graph) s"
    and "root_factors s = used_factors graph s"
    and "\<forall>i \<in> set involved. i < length graph"
  shows "\<exists>s'. foreach_factor graph j involved s = Some (Inr s')
           \<and> wf_sweep (Suc j) n (length graph) s' \<and> root_factors s' = used_factors graph s'"
  using assms
proof (induction involved arbitrary: s)
  case Nil
  then show ?case by simp
next
  case (Cons i rest)
  from Cons.prems have "i < length graph" by simp
  from visit_factor_step [OF Cons.prems(1,2) this] obtain s1
    where s1: "visit_factor graph j i s = Some (Inr s1)"
      "wf_sweep (Suc j) n (length graph) s1" "root_factors s1 = used_factors graph s1"
    by blast
  from Cons.IH [OF s1(2,3)] Cons.prems(3) s1(1) show ?case by simp
qed

lemma foreach_factor_inv:
  assumes "wf_sweep (Suc j) n (length graph) s"
    and "root_factors s = used_factors graph s"
    and "foreach_factor graph j involved s = Some (Inr s')"
  shows "wf_sweep (Suc j) n (length graph) s' \<and> root_factors s' = used_factors graph s'"
  using assms
proof (induction involved arbitrary: s)
  case Nil
  then show ?case by simp
next
  case (Cons i rest)
  show ?case
  proof (cases "i < length graph")
    case True
    from visit_factor_step [OF Cons.prems(1,2) True] obtain s1
      where s1: "visit_factor graph j i s = Some (Inr s1)"
        "wf_sweep (Suc j) n (length graph) s1" "root_factors s1 = used_factors graph s1"
      by blast
    with Cons.prems(3) have "foreach_factor graph j rest s1 = Some (Inr s')" by simp
    from Cons.IH [OF s1(2,3) this] show ?thesis .
  next
    case False
    from visit_factor_outside [OF this, of j s] Cons.prems(3) show ?thesis by simp
  qed
qed

lemma wf_sweep_new_node:
  assumes wf: "wf_sweep j n m s" and j: "j < n"
  shows "wf_sweep (Suc j) n m (s\<lparr>nodes := nodes s @ [Node k [] []]\<rparr>)"
  using assms unfolding wf_sweep_def by (auto simp: less_Suc_eq)

lemma wf_sweep_next_parentless:
  assumes wf: "wf_sweep j n m s" and j: "j < n"
  shows "parents s ! j = None"
proof (cases "parents s ! j")
  case (Some p)
  from wf have "\<forall>r p. r < n \<longrightarrow> parents s ! r = Some p \<longrightarrow> r < p \<and> p < j"
    by (simp add: wf_sweep_def)
  with Some j have "j < p \<and> p < j" by blast
  then show ?thesis by linarith
qed simp

lemma new_node_balance:
  assumes wf: "wf_sweep j n m s" and j: "j < n"
    and bal: "root_factors s = used_factors graph s"
  shows "root_factors (s\<lparr>nodes := nodes s @ [Node k [] []]\<rparr>)
           = used_factors graph (s\<lparr>nodes := nodes s @ [Node k [] []]\<rparr>)"
proof -
  from wf have "length (nodes s) = j" by (simp add: wf_sweep_def)
  with wf_sweep_next_parentless [OF wf j] have "parents s ! length (nodes s) = None" by simp
  then have "root_factors (s\<lparr>nodes := nodes s @ [Node k [] []]\<rparr>) = root_factors s"
    by (rule root_factors_new_node) simp_all
  moreover have "used_factors graph (s\<lparr>nodes := nodes s @ [Node k [] []]\<rparr>) = used_factors graph s"
    by (simp add: used_factors_def)
  ultimately show ?thesis using bal by simp
qed

lemma sweep_from_inv:
  assumes "wf_sweep j (length order) (length graph) s"
    and "root_factors s = used_factors graph s"
    and "sweep_from graph structure' order j s = Some (Inr s')"
  shows "wf_sweep (length order) (length order) (length graph) s'
           \<and> root_factors s' = used_factors graph s'"
  using assms
proof (induction graph structure' order j s rule: sweep_from.induct)
  case (1 graph structure' order j s)
  note unfold = sweep_from.simps [of graph structure' order j s]
  show ?case
  proof (cases "j < length order")
    case False
    with "1.prems"(3) unfold have "s' = s" by simp
    moreover from False "1.prems"(1) have "j = length order" by (simp add: wf_sweep_def)
    ultimately show ?thesis using "1.prems" by simp
  next
    case lt: True
    let ?s0 = "s\<lparr>nodes := nodes s @ [Node (order ! j) [] []]\<rparr>"
    from "1.prems"(3) unfold lt obtain involved
      where inv: "structure' (order ! j) = Inr involved"
      by (cases "structure' (order ! j)") simp_all
    from "1.prems"(3) unfold lt inv obtain s1
      where s1: "foreach_factor graph j involved ?s0 = Some (Inr s1)"
        and rest: "sweep_from graph structure' order (j + 1) s1 = Some (Inr s')"
      by (auto split: option.splits sum.splits)
    have "wf_sweep (Suc j) (length order) (length graph) ?s0"
      by (rule wf_sweep_new_node [OF "1.prems"(1) lt])
    moreover have "root_factors ?s0 = used_factors graph ?s0"
      by (rule new_node_balance [OF "1.prems"(1) lt "1.prems"(2)])
    ultimately have "wf_sweep (Suc j) (length order) (length graph) s1
        \<and> root_factors s1 = used_factors graph s1"
      using s1 by (rule foreach_factor_inv)
    then show ?thesis
      using "1.IH" [OF lt inv s1 refl _ _ rest] by simp
  qed
qed

lemma sweep_from_fails:
  assumes "wf_sweep j (length order) (length graph) s"
    and "root_factors s = used_factors graph s"
    and "j \<le> j0" and "j0 < length order"
    and "structure' (order ! j0) = Inl e"
    and "\<forall>k. j \<le> k \<and> k < j0 \<longrightarrow>
           (\<exists>fs. structure' (order ! k) = Inr fs \<and> (\<forall>i \<in> set fs. i < length graph))"
  shows "sweep_from graph structure' order j s = Some (Inl e)"
  using assms
proof (induction graph structure' order j s rule: sweep_from.induct)
  case (1 graph structure' order j s)
  note unfold = sweep_from.simps [of graph structure' order j s]
  from "1.prems"(3,4) have lt: "j < length order" by simp
  show ?case
  proof (cases "j = j0")
    case True
    with "1.prems"(5) lt unfold show ?thesis by simp
  next
    case False
    with "1.prems"(3) have jlt: "j < j0" by simp
    with "1.prems"(6) obtain involved
      where inv: "structure' (order ! j) = Inr involved"
        and rng: "\<forall>i \<in> set involved. i < length graph"
      by blast
    let ?s0 = "s\<lparr>nodes := nodes s @ [Node (order ! j) [] []]\<rparr>"
    have "wf_sweep (Suc j) (length order) (length graph) ?s0"
      by (rule wf_sweep_new_node [OF "1.prems"(1) lt])
    moreover have "root_factors ?s0 = used_factors graph ?s0"
      by (rule new_node_balance [OF "1.prems"(1) lt "1.prems"(2)])
    ultimately obtain s1
      where s1: "foreach_factor graph j involved ?s0 = Some (Inr s1)"
        "wf_sweep (Suc j) (length order) (length graph) s1"
        "root_factors s1 = used_factors graph s1"
      using foreach_factor_ok [OF _ _ rng] by blast
    have "sweep_from graph structure' order (j + 1) s1 = Some (Inl e)"
      using "1.IH" [OF lt inv s1(1) refl] s1(2,3) jlt "1.prems"(4,5,6) by simp
    with unfold lt inv s1(1) show ?thesis by simp
  qed
qed

subsection \<open>The constructed tree\<close>

lemma wf_sweep_init:
  "wf_sweep 0 n m \<lparr>nodes = [], parents = replicate n None, prevCol = replicate m None,
      factorUsed = replicate m False\<rparr>"
  by (simp add: wf_sweep_def)

lemma balance_init:
  assumes n: "nodes s = []" and f: "factorUsed s = replicate (length graph) False"
  shows "root_factors s = used_factors graph s"
proof -
  have "{i. i < length graph \<and> factorUsed s ! i} = {}" by (auto simp: f)
  then have "used_factors graph s = {#}"
    unfolding used_factors_def by (simp only: sum.empty)
  moreover have "root_factors s = {#}"
    by (simp add: root_factors_def n)
  ultimately show ?thesis by simp
qed

lemma sweep_try_Inr:
  assumes "sweep_try graph structure' order = Some (Inr s)"
  shows "sweep_from graph structure' order 0
           \<lparr>nodes = [], parents = replicate (length order) None,
            prevCol = replicate (length graph) None,
            factorUsed = replicate (length graph) False\<rparr> = Some (Inr s)"
  using assms
  by (auto simp: sweep_try_def Let_def split: option.splits sum.splits error.splits)

lemma sweep_try_inv:
  assumes "sweep_try graph structure' order = Some (Inr s)"
  shows "wf_sweep (length order) (length order) (length graph) s
           \<and> root_factors s = used_factors graph s"
  by (rule sweep_from_inv [OF wf_sweep_init _ sweep_try_Inr [OF assms]])
    (rule balance_init, simp_all)

lemma sum_list_upt_filter:
  fixes g :: "nat \<Rightarrow> 'a multiset"
  shows "sum_list (map g (filter P [0..<n])) = sum g {i. i < n \<and> P i}"
proof -
  have "sum_list (map g (filter P [0..<n])) = sum g (set (filter P [0..<n]))"
    by (rule sum_list_distinct_conv_sum_set) simp
  also have "set (filter P [0..<n]) = {i. i < n \<and> P i}" by auto
  finally show ?thesis .
qed

lemma mset_map_sum_list: "mset (map f xs) = sum_list (map (\<lambda>x. {#f x#}) xs)"
  by (induction xs) simp_all

lemma mset_roots:
  assumes "length (nodes s) = n"
  shows "mset (concat (map all_factors
           (map (\<lambda>j. nodes s ! j) (filter (\<lambda>j. parents s ! j = None) [0..<n]))))
         = root_factors s"
proof -
  have "mset (concat (map all_factors
           (map (\<lambda>j. nodes s ! j) (filter (\<lambda>j. parents s ! j = None) [0..<n]))))
        = sum_list (map (\<lambda>j. mset (all_factors (nodes s ! j)))
            (filter (\<lambda>j. parents s ! j = None) [0..<n]))"
    by (simp add: mset_concat comp_def)
  also have "\<dots> = (\<Sum>j \<in> {j. j < n \<and> parents s ! j = None}. mset (all_factors (nodes s ! j)))"
    by (rule sum_list_upt_filter)
  finally show ?thesis using assms by (simp add: root_factors_def)
qed

lemma mset_graph_split:
  "used_factors graph s
     + mset (map (\<lambda>i. graph ! i) (filter (\<lambda>i. \<not> factorUsed s ! i) [0..<length graph]))
   = mset graph"
proof -
  let ?m = "length graph"
  let ?U = "{i. i < ?m \<and> factorUsed s ! i}" and ?N = "{i. i < ?m \<and> \<not> factorUsed s ! i}"
  let ?g = "\<lambda>i. {#graph ! i#}"
  have N: "mset (map (\<lambda>i. graph ! i) (filter (\<lambda>i. \<not> factorUsed s ! i) [0..<?m])) = sum ?g ?N"
    by (simp only: mset_map_sum_list sum_list_upt_filter)
  have U: "used_factors graph s = sum ?g ?U"
    by (simp add: used_factors_def)
  have "sum ?g ?U + sum ?g ?N = sum ?g (?U \<union> ?N)"
    by (rule sum.union_disjoint [symmetric]) auto
  also have "?U \<union> ?N = {i. i < ?m \<and> True}" by auto
  also have "sum ?g {i. i < ?m \<and> True}
      = mset (map (\<lambda>i. graph ! i) (filter (\<lambda>i. True) [0..<?m]))"
    by (simp only: mset_map_sum_list sum_list_upt_filter)
  also have "map (\<lambda>i. graph ! i) (filter (\<lambda>i. True) [0..<?m]) = graph"
    by (simp add: map_nth)
  finally show ?thesis
    by (simp only: N U)
qed

text \<open>
  Claim C1.  Whenever the three-argument constructor returns a tree, the factor lists of
  all nodes of the forest (every node reachable from \<^verbatim>\<open>roots_\<close>) together with
  \<^verbatim>\<open>remainingFactors_\<close> hold the factors of the graph, each as often as the graph holds it:
  no factor is duplicated and none is dropped.
\<close>

theorem factors_partitioned:
  assumes "EliminationTreeUnordered debug graph structure' order = Some (Inr t)"
  shows "mset (concat (map all_factors (roots t)) @ remainingFactors t) = mset graph"
proof -
  from assms obtain s where s: "sweep_try graph structure' order = Some (Inr s)"
    and t: "t = \<lparr>roots = map (\<lambda>j. nodes s ! j) (filter (\<lambda>j. parents s ! j = None) [0..<length order]),
                remainingFactors =
                  map (\<lambda>i. graph ! i) (filter (\<lambda>i. \<not> factorUsed s ! i) [0..<length graph])\<rparr>"
    by (auto simp: EliminationTreeUnordered_def Let_def split: option.splits sum.splits if_splits)
  from sweep_try_inv [OF s] have wf: "wf_sweep (length order) (length order) (length graph) s"
    and bal: "root_factors s = used_factors graph s" by simp_all
  from wf have "length (nodes s) = length order" by (simp add: wf_sweep_def)
  from mset_roots [OF this] bal
  have "mset (concat (map all_factors (roots t))) = used_factors graph s"
    by (simp add: t)
  with mset_graph_split [of graph s] show ?thesis
    by (simp add: t)
qed

theorem factors_partitioned_witness:
  "EliminationTreeUnordered True [''f0'', ''f1'', ''f2'']
     (\<lambda>k. if k = (1::nat) then Inr [0] else if k = 2 then Inr [0, 1] else if k = 3 then Inr [1]
          else Inl (invalid_argument ''unknown variable''))
     [1, 2, 3]
   = Some (Inr \<lparr>roots = [Node 3 [] [Node 2 [''f1''] [Node 1 [''f0''] []]]],
                remainingFactors = [''f2'']\<rparr>)
   \<and> mset (concat (map all_factors [Node (3::nat) [] [Node 2 [''f1''] [Node 1 [''f0''] []]]])
          @ [''f2''])
     = mset [''f0'', ''f1'', ''f2'']"
proof -
  have e: "EliminationTreeUnordered True [''f0'', ''f1'', ''f2'']
     (\<lambda>k. if k = (1::nat) then Inr [0] else if k = 2 then Inr [0, 1] else if k = 3 then Inr [1]
          else Inl (invalid_argument ''unknown variable''))
     [1, 2, 3]
   = Some (Inr \<lparr>roots = [Node 3 [] [Node 2 [''f1''] [Node 1 [''f0''] []]]],
                remainingFactors = [''f2'']\<rparr>)"
    by (simp add: EliminationTreeUnordered_def sweep_try_def sweep_from.simps visit_factor_def
        find_root.simps Let_def)
  from factors_partitioned [OF e] e show ?thesis by simp
qed

lemma wf_sweep_parentless:
  assumes wf: "wf_sweep c n m s" and r: "r < n" and c: "c \<le> Suc r"
  shows "parents s ! r = None"
proof (cases "parents s ! r")
  case (Some p)
  from wf have "\<forall>r p. r < n \<longrightarrow> parents s ! r = Some p \<longrightarrow> r < p \<and> p < c"
    by (simp add: wf_sweep_def)
  with Some r have "r < p \<and> p < c" by blast
  with c show ?thesis by linarith
qed simp

text \<open>
  Claim C8.  For a non-empty ordering on which the sweep succeeds, the last entry of
  \<^verbatim>\<open>parents\<close> is \<^verbatim>\<open>none\<close>: the assertion holds, the constructor returns a tree in either
  build, and the node created for the last ordering entry is the last of its roots.
\<close>

theorem last_node_is_root:
  assumes ne: "order \<noteq> []"
    and s: "sweep_try graph structure' order = Some (Inr s)"
  shows "parents s \<noteq> [] \<and> last (parents s) = None
    \<and> (\<exists>t. EliminationTreeUnordered debug graph structure' order = Some (Inr t)
          \<and> roots t \<noteq> [] \<and> last (roots t) = last (nodes s))"
proof -
  let ?n = "length order"
  from sweep_try_inv [OF s] have wf: "wf_sweep ?n ?n (length graph) s" by simp
  then have len: "length (nodes s) = ?n" "length (parents s) = ?n"
    by (simp_all add: wf_sweep_def)
  define n' where "n' = ?n - 1"
  have n': "?n = Suc n'" unfolding n'_def using ne by simp
  have pn: "parents s ! n' = None"
    by (rule wf_sweep_parentless [OF wf]) (simp_all add: n')
  have p1: "parents s \<noteq> []" using len n' by auto
  have p2: "last (parents s) = None"
    using pn len n' p1 by (simp add: last_conv_nth)
  let ?roots = "map (\<lambda>j. nodes s ! j) (filter (\<lambda>j. parents s ! j = None) [0..<?n])"
  let ?t = "\<lparr>roots = ?roots,
             remainingFactors =
               map (\<lambda>i. graph ! i) (filter (\<lambda>i. \<not> factorUsed s ! i) [0..<length graph])\<rparr>"
  have t: "EliminationTreeUnordered debug graph structure' order = Some (Inr ?t)"
    using s p1 p2 by (simp add: EliminationTreeUnordered_def Let_def)
  have r: "?roots = map (\<lambda>j. nodes s ! j) (filter (\<lambda>j. parents s ! j = None) [0..<n']) @ [nodes s ! n']"
    using pn by (simp add: n')
  have "nodes s \<noteq> []" using len n' by auto
  then have "last (nodes s) = nodes s ! n'"
    using len n' by (simp add: last_conv_nth)
  with r have "?roots \<noteq> [] \<and> last ?roots = last (nodes s)" by simp
  with t p1 p2 show ?thesis by simp
qed

theorem last_node_is_root_witness:
  "[1::nat, 2, 3] \<noteq> []
   \<and> sweep_try [''f0'', ''f1'', ''f2'']
     (\<lambda>k. if k = (1::nat) then Inr [0] else if k = 2 then Inr [0, 1] else if k = 3 then Inr [1]
          else Inl (invalid_argument ''unknown variable''))
     [1, 2, 3]
   = Some (Inr \<lparr>nodes = [Node 1 [''f0''] [], Node 2 [''f1''] [Node 1 [''f0''] []],
                         Node 3 [] [Node 2 [''f1''] [Node 1 [''f0''] []]]],
                parents = [Some 1, Some 2, None], prevCol = [Some 1, Some 2, None],
                factorUsed = [True, True, False]\<rparr>)
   \<and> (\<exists>t. EliminationTreeUnordered True [''f0'', ''f1'', ''f2'']
     (\<lambda>k. if k = (1::nat) then Inr [0] else if k = 2 then Inr [0, 1] else if k = 3 then Inr [1]
          else Inl (invalid_argument ''unknown variable''))
     [1, 2, 3] = Some (Inr t) \<and> last (roots t) = Node 3 [] [Node 2 [''f1''] [Node 1 [''f0''] []]])"
proof -
  have ne: "[1::nat, 2, 3] \<noteq> []" by simp
  have e: "sweep_try [''f0'', ''f1'', ''f2'']
     (\<lambda>k. if k = (1::nat) then Inr [0] else if k = 2 then Inr [0, 1] else if k = 3 then Inr [1]
          else Inl (invalid_argument ''unknown variable''))
     [1, 2, 3]
   = Some (Inr \<lparr>nodes = [Node 1 [''f0''] [], Node 2 [''f1''] [Node 1 [''f0''] []],
                         Node 3 [] [Node 2 [''f1''] [Node 1 [''f0''] []]]],
                parents = [Some 1, Some 2, None], prevCol = [Some 1, Some 2, None],
                factorUsed = [True, True, False]\<rparr>)"
    by (simp add: sweep_try_def sweep_from.simps visit_factor_def find_root.simps Let_def)
  from last_node_is_root [OF ne e, of True] obtain t
    where t: "EliminationTreeUnordered True [''f0'', ''f1'', ''f2'']
     (\<lambda>k. if k = (1::nat) then Inr [0] else if k = 2 then Inr [0, 1] else if k = 3 then Inr [1]
          else Inl (invalid_argument ''unknown variable''))
     [1, 2, 3] = Some (Inr t)"
      "last (roots t) = Node 3 [] [Node 2 [''f1''] [Node 1 [''f0''] []]]"
    by auto
  show ?thesis
    by (intro conjI exI [of _ t]) (rule ne, rule e, rule t(1), rule t(2))
qed

subsection \<open>Termination and the failing lookup\<close>

text \<open>
  The walk to the root always ends: from a well-formed state no loop of the sweep fails
  to return, so the constructor returns a tree or an error on every input.
\<close>

lemma foreach_factor_returns:
  assumes "wf_sweep (Suc j) n (length graph) s"
    and "root_factors s = used_factors graph s"
  shows "foreach_factor graph j involved s \<noteq> None"
  using assms
proof (induction involved arbitrary: s)
  case Nil
  then show ?case by simp
next
  case (Cons i rest)
  show ?case
  proof (cases "i < length graph")
    case True
    from visit_factor_step [OF Cons.prems True] obtain s1
      where s1: "visit_factor graph j i s = Some (Inr s1)"
        "wf_sweep (Suc j) n (length graph) s1" "root_factors s1 = used_factors graph s1"
      by blast
    from Cons.IH [OF s1(2,3)] s1(1) show ?thesis by simp
  next
    case False
    from visit_factor_outside [OF this, of j s] show ?thesis by simp
  qed
qed

lemma sweep_from_returns:
  assumes "wf_sweep j (length order) (length graph) s"
    and "root_factors s = used_factors graph s"
  shows "sweep_from graph structure' order j s \<noteq> None"
  using assms
proof (induction graph structure' order j s rule: sweep_from.induct)
  case (1 graph structure' order j s)
  note unfold = sweep_from.simps [of graph structure' order j s]
  show ?case
  proof (cases "j < length order")
    case False
    with unfold show ?thesis by simp
  next
    case lt: True
    let ?s0 = "s\<lparr>nodes := nodes s @ [Node (order ! j) [] []]\<rparr>"
    have w0: "wf_sweep (Suc j) (length order) (length graph) ?s0"
      by (rule wf_sweep_new_node [OF "1.prems"(1) lt])
    have b0: "root_factors ?s0 = used_factors graph ?s0"
      by (rule new_node_balance [OF "1.prems"(1) lt "1.prems"(2)])
    show ?thesis
    proof (cases "structure' (order ! j)")
      case (Inl e)
      with unfold lt show ?thesis by simp
    next
      case (Inr involved)
      show ?thesis
      proof (cases "foreach_factor graph j involved ?s0")
        case None
        with foreach_factor_returns [OF w0 b0, of involved] show ?thesis by simp
      next
        case (Some res)
        show ?thesis
        proof (cases res)
          case (Inl e)
          with unfold lt Inr Some show ?thesis by simp
        next
          case inr: (Inr s1)
          from foreach_factor_inv [OF w0 b0] Some inr
          have "wf_sweep (Suc j) (length order) (length graph) s1
              \<and> root_factors s1 = used_factors graph s1" by simp
          with "1.IH" [OF lt Inr _ inr] Some inr
          have "sweep_from graph structure' order (j + 1) s1 \<noteq> None" by simp
          with unfold lt Inr Some inr show ?thesis by simp
        qed
      qed
    qed
  qed
qed

lemma EliminationTreeUnordered_returns:
  "EliminationTreeUnordered debug graph structure' order \<noteq> None"
proof -
  let ?init = "\<lparr>nodes = [], parents = replicate (length order) None,
      prevCol = replicate (length graph) None,
      factorUsed = replicate (length graph) False\<rparr> :: ('a, 'b) sweep"
  have "root_factors ?init = used_factors graph ?init"
    by (rule balance_init) simp_all
  from sweep_from_returns [of 0 order graph ?init structure', OF wf_sweep_init this]
  have "sweep_try graph structure' order \<noteq> None"
    by (auto simp: sweep_try_def Let_def split: option.splits sum.splits error.splits)
  then show ?thesis
    by (auto simp: EliminationTreeUnordered_def Let_def split: option.splits sum.splits)
qed

lemma sweep_from_first_failure:
  assumes wf: "wf_sweep 0 (length order) (length graph) s"
    and bal: "root_factors s = used_factors graph s"
    and contract: "\<forall>k \<in> set order. case structure' k of
        Inl e \<Rightarrow> (\<exists>m. e = invalid_argument m) | Inr fs \<Rightarrow> (\<forall>i \<in> set fs. i < length graph)"
    and absent: "\<exists>k \<in> set order. \<exists>m. structure' k = Inl (invalid_argument m)"
  shows "\<exists>m. sweep_from graph structure' order 0 s = Some (Inl (invalid_argument m))"
proof -
  let ?P = "\<lambda>j. j < length order \<and> isl (structure' (order ! j))"
  from absent obtain k m0 where k: "k \<in> set order" "structure' k = Inl (invalid_argument m0)"
    by blast
  then obtain j where "j < length order" "order ! j = k"
    by (auto simp: in_set_conv_nth)
  with k have "?P j" by simp
  define j0 where "j0 = (LEAST j. ?P j)"
  have j0: "?P j0" unfolding j0_def by (rule LeastI) (rule \<open>?P j\<close>)
  have least: "\<And>k. k < j0 \<Longrightarrow> \<not> ?P k" unfolding j0_def by (rule not_less_Least)
  from j0 contract have "\<exists>m. structure' (order ! j0) = Inl (invalid_argument m)"
    by (cases "structure' (order ! j0)") (auto dest!: bspec [where x = "order ! j0"])
  then obtain m where m: "structure' (order ! j0) = Inl (invalid_argument m)" ..
  have before: "\<forall>k. 0 \<le> k \<and> k < j0 \<longrightarrow>
      (\<exists>fs. structure' (order ! k) = Inr fs \<and> (\<forall>i \<in> set fs. i < length graph))"
  proof (intro allI impI)
    fix k assume k: "0 \<le> k \<and> k < j0"
    with j0 have kl: "k < length order" by simp
    with least k have "\<not> isl (structure' (order ! k))" by blast
    then obtain fs where fs: "structure' (order ! k) = Inr fs"
      by (cases "structure' (order ! k)") simp_all
    from contract kl have "case structure' (order ! k) of
        Inl e \<Rightarrow> (\<exists>m. e = invalid_argument m) | Inr fs \<Rightarrow> (\<forall>i \<in> set fs. i < length graph)"
      by simp
    with fs show "\<exists>fs. structure' (order ! k) = Inr fs \<and> (\<forall>i \<in> set fs. i < length graph)"
      by simp
  qed
  from sweep_from_fails [OF wf bal _ _ m before] j0
  show ?thesis by blast
qed

text \<open>
  Claim C5, as amended.  Let every lookup of an ordering entry either return indices of
  factors of the graph or throw \<^verbatim>\<open>std::invalid_argument\<close> (the variable is not in the
  index).  If the lookup of some ordering entry throws, the constructor throws
  \<^verbatim>\<open>std::invalid_argument\<close> with its own message, which is
  "EliminationTree: given ordering contains variables that are not involved in the factor
  graph", whatever the message of the lookup was.
\<close>

theorem absent_variable_rethrown:
  assumes contract: "\<forall>k \<in> set order. case structure' k of
        Inl e \<Rightarrow> (\<exists>m. e = invalid_argument m) | Inr fs \<Rightarrow> (\<forall>i \<in> set fs. i < length graph)"
    and absent: "\<exists>k \<in> set order. \<exists>m. structure' k = Inl (invalid_argument m)"
  shows "EliminationTreeUnordered debug graph structure' order =
    Some (Inl (invalid_argument
      ''EliminationTree: given ordering contains variables that are not involved in the factor graph''))"
proof -
  let ?init = "\<lparr>nodes = [], parents = replicate (length order) None,
      prevCol = replicate (length graph) None,
      factorUsed = replicate (length graph) False\<rparr> :: ('a, 'b) sweep"
  have "root_factors ?init = used_factors graph ?init"
    by (rule balance_init) simp_all
  from sweep_from_first_failure [OF wf_sweep_init this contract absent]
  obtain m where "sweep_from graph structure' order 0 ?init = Some (Inl (invalid_argument m))" ..
  then show ?thesis
    by (simp add: EliminationTreeUnordered_def sweep_try_def Let_def)
qed

theorem absent_variable_rethrown_witness:
  "EliminationTreeUnordered True [''f0'']
     (\<lambda>k. if k = (1::nat) then Inr [0] else Inl (invalid_argument ''unknown variable''))
     [1, 2]
   = Some (Inl (invalid_argument
      ''EliminationTree: given ordering contains variables that are not involved in the factor graph''))"
  using absent_variable_rethrown [where order = "[1::nat, 2]"
      and structure' = "\<lambda>k. if k = (1::nat) then Inr [0] else Inl (invalid_argument ''unknown variable'')"
      and graph = "[''f0'']" and debug = True]
  by simp

text \<open>
  The message is not the one the specification quotes: for the graph of one factor, an
  index that knows variable 1 only, and the ordering 1, 2, the constructor does not fail
  with "ordering references a variable absent from the factor graph".
\<close>

theorem absent_variable_message_counterexample:
  "EliminationTreeUnordered True [''f0'']
     (\<lambda>k. if k = (1::nat) then Inr [0] else Inl (invalid_argument ''unknown variable''))
     [1, 2]
   \<noteq> Some (Inl (invalid_argument ''ordering references a variable absent from the factor graph''))"
  by (simp add: EliminationTreeUnordered_def sweep_try_def sweep_from.simps visit_factor_def
        find_root.simps Let_def)

section \<open>Properties of the elimination traversal\<close>

text \<open>
  Claim C4.  For a node with factors \<open>F\<close> and one result per child, \<open>R\<close>, in child-list
  order, \<^verbatim>\<open>Node::eliminate\<close> calls the injected function once, on the factor list
  \<open>F @ R\<close> and the key list that holds exactly the node's variable.  If the function
  throws, so does the call; otherwise the conditional it returned is appended to the
  Bayes net and the separator factor it returned is the result, unchanged.
\<close>

theorem Node_eliminate_gathers_own_factors_then_children:
  assumes "length childrenResults = length (children node)"
  shows "Node_eliminate debug node output func childrenResults =
    (case func (factors node @ childrenResults) [key node] of
       Inl e \<Rightarrow> Inl e
     | Inr (conditional, separatorFactor) \<Rightarrow> Inr (output @ [conditional], separatorFactor))"
  using assms by (simp add: Node_eliminate_def Let_def split: sum.splits prod.splits)

theorem Node_eliminate_gathers_own_factors_then_children_witness:
  "length [''s1'', ''s2''] = length (children (Node (7::nat) [''f0'', ''f1''] [Node 5 [] [], Node 6 [] []]))
   \<and> Node_eliminate True (Node (7::nat) [''f0'', ''f1''] [Node 5 [] [], Node 6 [] []]) [''c5'', ''c6'']
         (\<lambda>fs ks. if ks = [7] then Inr (concat fs, ''sep'') else Inl (exception ''other key''))
         [''s1'', ''s2'']
       = Inr ([''c5'', ''c6'', ''f0f1s1s2''], ''sep'')"
  using Node_eliminate_gathers_own_factors_then_children
    [of "[''s1'', ''s2'']" "Node (7::nat) [''f0'', ''f1''] [Node 5 [] [], Node 6 [] []]" True
      "[''c5'', ''c6'']"
      "\<lambda>fs ks. if ks = [7] then Inr (concat fs, ''sep'') else Inl (exception ''other key'')"]
  by simp

text \<open>
  Claim C3.  Whenever \<^verbatim>\<open>eliminate\<close> returns, the second component of its result is the
  tree's \<^verbatim>\<open>remainingFactors_\<close> and nothing else: no separator factor of a root is added.
  By the source the component is \<^verbatim>\<open>remainingFactors_\<close> followed by what \<^verbatim>\<open>EliminateTree\<close>
  returns, and the traversal described by the specification returns no factor.
\<close>

theorem eliminate_returns_remainingFactors:
  assumes "eliminate debug tree func = Inr (bayesNet, remaining)"
  shows "remaining = remainingFactors tree"
  using assms
  by (auto simp: eliminate_def EliminateTree_def Let_def split: sum.splits prod.splits)

theorem eliminate_returns_remainingFactors_witness:
  "eliminate True
     \<lparr>roots = [Node (3::nat) [] [Node 2 [''f1''] [Node 1 [''f0''] []]], Node 4 [''f3''] []],
      remainingFactors = [''f2'']\<rparr>
     (\<lambda>fs ks. Inr ((ks, fs), ''s'' @ concat fs))
   = Inr ([([1], [''f0'']), ([2], [''f1'', ''sf0'']), ([3], [''sf1sf0'']), ([4], [''f3''])],
          [''f2''])"
proof -
  have e: "eliminate True
     \<lparr>roots = [Node (3::nat) [] [Node 2 [''f1''] [Node 1 [''f0''] []]], Node 4 [''f3''] []],
      remainingFactors = [''f2'']\<rparr>
     (\<lambda>fs ks. Inr ((ks, fs), ''s'' @ concat fs))
   = Inr ([([1], [''f0'']), ([2], [''f1'', ''sf0'']), ([3], [''sf1sf0'']), ([4], [''f3''])],
          [''f2''])"
    by (simp add: eliminate_def EliminateTree_def Node_eliminate_def Let_def)
  from eliminate_returns_remainingFactors [OF e] e show ?thesis by simp
qed

section \<open>Properties of LikeActiveViewOf\<close>

lemma length_copy_offsets: "length (copy_offsets rhs i offsets) = length offsets"
proof (induction rhs i offsets rule: copy_offsets.induct)
  case (1 rhs i offsets)
  then show ?case
    by (subst copy_offsets.simps) simp
qed

lemma copy_offsets_untouched:
  "k < i \<or> nBlocks rhs \<le> k \<Longrightarrow> copy_offsets rhs i offsets ! k = offsets ! k"
proof (induction rhs i offsets rule: copy_offsets.induct)
  case (1 rhs i offsets)
  show ?case
  proof (cases "i < nBlocks rhs")
    case True
    with 1 have "copy_offsets rhs (i + 1) (offsets[i := variableColOffsets rhs ! (i + blockStart rhs)]) ! k
        = (offsets[i := variableColOffsets rhs ! (i + blockStart rhs)]) ! k"
      by auto
    also have "\<dots> = offsets ! k" using True "1.prems" by auto
    finally show ?thesis using True by (subst copy_offsets.simps) simp
  next
    case False
    then show ?thesis by (subst copy_offsets.simps) simp
  qed
qed

lemma copy_offsets_copied:
  "i \<le> k \<Longrightarrow> k < nBlocks rhs \<Longrightarrow> k < length offsets \<Longrightarrow>
   copy_offsets rhs i offsets ! k = variableColOffsets rhs ! (k + blockStart rhs)"
proof (induction rhs i offsets rule: copy_offsets.induct)
  case (1 rhs i offsets)
  from "1.prems" have lt: "i < nBlocks rhs" by simp
  let ?o = "offsets[i := variableColOffsets rhs ! (i + blockStart rhs)]"
  have step: "copy_offsets rhs i offsets = copy_offsets rhs (i + 1) ?o"
    using lt by (subst copy_offsets.simps) simp
  show ?case
  proof (cases "k = i")
    case True
    have "copy_offsets rhs (i + 1) ?o ! k = ?o ! k"
      by (rule copy_offsets_untouched) (simp add: True)
    with True "1.prems"(3) step show ?thesis by simp
  next
    case False
    with "1.prems" have "i + 1 \<le> k" by simp
    from "1.IH" [OF lt this "1.prems"(2)] "1.prems"(3) step show ?thesis by simp
  qed
qed

text \<open>
  Claim C2, as amended.  For a source whose active range is valid (\<^verbatim>\<open>blockStart_\<close> below
  the number of offsets, \<^verbatim>\<open>rowStart_\<close> at most \<^verbatim>\<open>rowEnd_\<close>), a view returned by
  \<^verbatim>\<open>LikeActiveViewOf\<close> has as many blocks as the source's active view, its offset of block
  \<open>i\<close> is the source's offset of block \<^verbatim>\<open>blockStart_\<close> \<open>+ i\<close>, copied unchanged, its
  active rows start at 0, and its backing matrix and its active view have the source's
  active row count.  Nothing is said about the offset after the last block or about the
  column count of the backing matrix.
\<close>

theorem LikeActiveViewOf_copies_active_shape:
  assumes valid: "blockStart rhs < length (variableColOffsets rhs)" "rowStart rhs \<le> rowEnd rhs"
    and r: "LikeActiveViewOf assertInvariants rhs = Inr r"
  shows "nBlocks r = nBlocks rhs
    \<and> (\<forall>i<nBlocks rhs. variableColOffsets r ! i = variableColOffsets rhs ! (blockStart rhs + i))
    \<and> rowStart r = 0 \<and> matrix_rows r = rows rhs \<and> rows r = rows rhs"
proof -
  let ?o = "copy_offsets rhs 0 (resize_offsets (nBlocks rhs + 1) [0])"
  have len: "length ?o = nBlocks rhs + 1"
    by (simp add: length_copy_offsets resize_offsets_def)
  from r have r': "r = \<lparr>matrix_rows = rows rhs, matrix_cols = last ?o, variableColOffsets = ?o,
      rowStart = 0, rowEnd = rows rhs, blockStart = 0\<rparr>"
    by (auto simp: LikeActiveViewOf_def default_VerticalBlockMatrix_def Let_def split: if_splits)
  have "nBlocks r = nBlocks rhs" using len by (simp add: r' nBlocks_def)
  moreover have "\<forall>i<nBlocks rhs.
      variableColOffsets r ! i = variableColOffsets rhs ! (blockStart rhs + i)"
    by (simp add: r' copy_offsets_copied resize_offsets_def add.commute)
  moreover have "rowStart r = 0 \<and> matrix_rows r = rows rhs \<and> rows r = rows rhs"
    by (simp add: r' rows_def)
  ultimately show ?thesis by simp
qed

theorem LikeActiveViewOf_copies_active_shape_witness:
  "LikeActiveViewOf (\<lambda>v. True)
     \<lparr>matrix_rows = 4, matrix_cols = 9, variableColOffsets = [0, 2, 5, 9],
      rowStart = 1, rowEnd = 4, blockStart = 1\<rparr>
   = Inr \<lparr>matrix_rows = 3, matrix_cols = 0, variableColOffsets = [2, 5, 0],
          rowStart = 0, rowEnd = 3, blockStart = 0\<rparr>
   \<and> nBlocks \<lparr>matrix_rows = 3, matrix_cols = 0, variableColOffsets = [2, 5, 0],
          rowStart = 0, rowEnd = 3, blockStart = 0\<rparr>
     = nBlocks \<lparr>matrix_rows = 4, matrix_cols = 9, variableColOffsets = [0, 2, 5, 9],
          rowStart = 1, rowEnd = 4, blockStart = 1\<rparr>
   \<and> rows \<lparr>matrix_rows = 3, matrix_cols = 0, variableColOffsets = [2, 5, 0],
          rowStart = 0, rowEnd = 3, blockStart = 0\<rparr>
     = rows \<lparr>matrix_rows = 4, matrix_cols = 9, variableColOffsets = [0, 2, 5, 9],
          rowStart = 1, rowEnd = 4, blockStart = 1\<rparr>"
proof -
  let ?rhs = "\<lparr>matrix_rows = 4, matrix_cols = 9, variableColOffsets = [0, 2, 5, 9],
      rowStart = 1, rowEnd = 4, blockStart = 1\<rparr>"
  let ?r = "\<lparr>matrix_rows = 3, matrix_cols = 0, variableColOffsets = [2, 5, 0],
      rowStart = 0, rowEnd = 3, blockStart = 0\<rparr>"
  have v1: "blockStart ?rhs < length (variableColOffsets ?rhs)" by simp
  have v2: "rowStart ?rhs \<le> rowEnd ?rhs" by simp
  have e: "LikeActiveViewOf (\<lambda>v. True) ?rhs = Inr ?r"
    by (simp add: LikeActiveViewOf_def default_VerticalBlockMatrix_def resize_offsets_def
        copy_offsets.simps nBlocks_def rows_def Let_def)
  from LikeActiveViewOf_copies_active_shape [OF v1 v2 e] e show ?thesis by simp
qed

text \<open>
  The offset after the last block is never written: whenever the source has an active
  block, the returned view's last offset is the 0 it was initialised with, and its
  backing matrix has no columns.
\<close>

lemma LikeActiveViewOf_last_offset_not_written:
  assumes pos: "0 < nBlocks rhs"
    and r: "LikeActiveViewOf assertInvariants rhs = Inr r"
  shows "last (variableColOffsets r) = 0 \<and> matrix_cols r = 0"
proof -
  let ?o = "copy_offsets rhs 0 (resize_offsets (nBlocks rhs + 1) [0])"
  have len: "length ?o = nBlocks rhs + 1"
    by (simp add: length_copy_offsets resize_offsets_def)
  from r have r': "r = \<lparr>matrix_rows = rows rhs, matrix_cols = last ?o, variableColOffsets = ?o,
      rowStart = 0, rowEnd = rows rhs, blockStart = 0\<rparr>"
    by (auto simp: LikeActiveViewOf_def default_VerticalBlockMatrix_def Let_def split: if_splits)
  have "?o \<noteq> []" using len by auto
  then have "last ?o = ?o ! nBlocks rhs" using len by (simp add: last_conv_nth)
  also have "\<dots> = resize_offsets (nBlocks rhs + 1) [0] ! nBlocks rhs"
    by (rule copy_offsets_untouched) simp
  also have "\<dots> = 0" using pos by (simp add: resize_offsets_def nth_append)
  finally show ?thesis by (simp add: r')
qed

text \<open>
  The claim as stated fails on the view with offsets 0, 2, 5, three rows and the active
  range starting at block 1, whose active view has one block of 3 columns: the returned
  view's offsets are 2, 0, so they do not start at 0, and its backing matrix has no
  columns.  The loop copies \<^verbatim>\<open>nBlocks()\<close> offsets, without subtracting the offset of
  \<^verbatim>\<open>blockStart_\<close>, into a vector of \<^verbatim>\<open>nBlocks() + 1\<close> entries, and the matrix width is read
  from the last entry, which the loop never writes.
\<close>

theorem LikeActiveViewOf_counterexample:
  "LikeActiveViewOf (\<lambda>v. True)
     \<lparr>matrix_rows = 3, matrix_cols = 5, variableColOffsets = [0, 2, 5],
      rowStart = 0, rowEnd = 3, blockStart = 1\<rparr>
   = Inr \<lparr>matrix_rows = 3, matrix_cols = 0, variableColOffsets = [2, 0],
          rowStart = 0, rowEnd = 3, blockStart = 0\<rparr>
   \<and> \<not> (hd (variableColOffsets
              \<lparr>matrix_rows = 3, matrix_cols = 0, variableColOffsets = [2, 0],
               rowStart = 0, rowEnd = 3, blockStart = 0\<rparr>) = 0
        \<and> nBlocks \<lparr>matrix_rows = 3, matrix_cols = 0, variableColOffsets = [2, 0],
               rowStart = 0, rowEnd = 3, blockStart = 0\<rparr>
          = nBlocks \<lparr>matrix_rows = 3, matrix_cols = 5, variableColOffsets = [0, 2, 5],
               rowStart = 0, rowEnd = 3, blockStart = 1\<rparr>
        \<and> matrix_rows \<lparr>matrix_rows = 3, matrix_cols = 0, variableColOffsets = [2, 0],
               rowStart = 0, rowEnd = 3, blockStart = 0\<rparr>
          = rows \<lparr>matrix_rows = 3, matrix_cols = 5, variableColOffsets = [0, 2, 5],
               rowStart = 0, rowEnd = 3, blockStart = 1\<rparr>
        \<and> matrix_cols \<lparr>matrix_rows = 3, matrix_cols = 0, variableColOffsets = [2, 0],
               rowStart = 0, rowEnd = 3, blockStart = 0\<rparr>
          = cols \<lparr>matrix_rows = 3, matrix_cols = 5, variableColOffsets = [0, 2, 5],
               rowStart = 0, rowEnd = 3, blockStart = 1\<rparr>)"
  by (simp add: LikeActiveViewOf_def default_VerticalBlockMatrix_def resize_offsets_def
      copy_offsets.simps nBlocks_def rows_def cols_def Let_def)

end
